theory Spec2Isabelle
  imports Complex_Main "HOL-Library.Multiset"
begin

section \<open>Data model of the context compression middleware\<close>

text \<open>
  The development embeds the class \<open>ContextCompressionMiddleware\<close> and the interface
  \<open>ContextItem\<close> of the repository.

  Conventions of the embedding:
  \<^item> a JavaScript \<open>number\<close> holding a priority is a \<open>real\<close> (finite values only: no
    \<open>NaN\<close>, no infinities); the literal \<open>0.9\<close> is \<open>9/10\<close>;
  \<^item> sizes are natural numbers, the capacity \<open>maxSize\<close> is an integer;
  \<^item> \<open>timestamp.getTime()\<close> is an integer number of milliseconds; the reading of the
    clock taken by \<open>new Date()\<close> is an argument of \<open>addItem\<close>;
  \<^item> a string is a list of characters and \<open>length\<close> is its number of code units;
  \<^item> the objects of the two arrays are values: every object sits at exactly one
    position of one array (the identifiers are pairwise different, which is proved
    below), so a field assignment through a reference is an update at that position;
  \<^item> the counter \<open>idCounter\<close> is an unbounded natural number.
\<close>

record ContextItem =
  itemId :: string
  content :: string
  priority :: real
  timestamp :: int
  archived :: bool

record Middleware =
  maxSize :: int
  preserveInstructionsAtStart :: bool
  instructionsContent :: string
  archiveThreshold :: real
  items :: "ContextItem list"
  archivedItems :: "ContextItem list"
  idCounter :: nat

record ContextCompressionOptions =
  optMaxSize :: int
  optPreserveInstructionsAtStart :: "bool option"
  optInstructionsContent :: "string option"
  optArchiveThreshold :: "real option"

text \<open>The constructor: \<open>??\<close> and \<open>||\<close> supply the defaults of the absent options.\<close>

definition constructor :: "ContextCompressionOptions \<Rightarrow> Middleware" where
  "constructor options =
     \<lparr> maxSize = optMaxSize options,
       preserveInstructionsAtStart =
         (case optPreserveInstructionsAtStart options of None \<Rightarrow> True | Some b \<Rightarrow> b),
       instructionsContent =
         (case optInstructionsContent options of None \<Rightarrow> [] | Some s \<Rightarrow> s),
       archiveThreshold =
         (case optArchiveThreshold options of None \<Rightarrow> 3 / 10 | Some t \<Rightarrow> t),
       items = [],
       archivedItems = [],
       idCounter = 0 \<rparr>"

subsection \<open>Identifiers\<close>

text \<open>The template string \<open>`ctx_${++this.idCounter}`\<close>: the decimal numeral of the counter.\<close>

definition digitChar :: "nat \<Rightarrow> char" where
  "digitChar d = ''0123456789'' ! d"

fun decimal :: "nat \<Rightarrow> string" where
  "decimal n = (if n < 10 then [digitChar n] else decimal (n div 10) @ [digitChar (n mod 10)])"

declare decimal.simps [simp del]

definition mkId :: "nat \<Rightarrow> string" where
  "mkId n = ''ctx_'' @ decimal n"

subsection \<open>Array helpers\<close>

text \<open>
  \<open>Array.prototype.sort\<close> with a comparator is a stable sort. Both comparators of the
  class are consistent (each orders by a key), so every stable sort gives the same
  array; the model is the stable insertion sort, an element going in front of the
  first one it does not have to follow.
\<close>

fun insertBy :: "('a \<Rightarrow> 'a \<Rightarrow> 'b::{linorder,zero}) \<Rightarrow> 'a \<Rightarrow> 'a list \<Rightarrow> 'a list" where
  "insertBy cmp x [] = [x]"
| "insertBy cmp x (y # ys) = (if cmp x y \<le> 0 then x # y # ys else y # insertBy cmp x ys)"

fun sortBy :: "('a \<Rightarrow> 'a \<Rightarrow> 'b::{linorder,zero}) \<Rightarrow> 'a list \<Rightarrow> 'a list" where
  "sortBy cmp [] = []"
| "sortBy cmp (x # xs) = insertBy cmp x (sortBy cmp xs)"

text \<open>\<open>findIndex\<close>: the first position satisfying the predicate; \<open>-1\<close> is \<open>None\<close>.\<close>

fun findIndex :: "('a \<Rightarrow> bool) \<Rightarrow> 'a list \<Rightarrow> nat option" where
  "findIndex P [] = None"
| "findIndex P (x # xs) = (if P x then Some 0 else map_option Suc (findIndex P xs))"

text \<open>\<open>splice(index, 1)\<close>: the array without the element at \<open>index\<close>.\<close>

definition splice1 :: "nat \<Rightarrow> 'a list \<Rightarrow> 'a list" where
  "splice1 k xs = take k xs @ drop (Suc k) xs"

text \<open>\<open>slice(0, n)\<close>: a negative \<open>n\<close> counts from the end of the array.\<close>

definition slice0 :: "int \<Rightarrow> 'a list \<Rightarrow> 'a list" where
  "slice0 n xs = (if n < 0 then take (length xs - nat (- n)) xs else take (nat n) xs)"

section \<open>Operations\<close>

subsection \<open>Size estimate\<close>

text \<open>\<open>Math.ceil(item.content.length / 4)\<close>.\<close>

definition itemSize :: "ContextItem \<Rightarrow> nat" where
  "itemSize item = (length (content item) + 3) div 4"

definition getCurrentSize :: "Middleware \<Rightarrow> nat" where
  "getCurrentSize st = foldl (\<lambda>total item. total + itemSize item) 0 (items st)"

subsection \<open>Compression\<close>

definition byPriorityDesc :: "ContextItem \<Rightarrow> ContextItem \<Rightarrow> real" where
  "byPriorityDesc a b = priority b - priority a"

definition sortedItems :: "Middleware \<Rightarrow> ContextItem list" where
  "sortedItems st = sortBy byPriorityDesc (items st)"

text \<open>The guard \<open>this.preserveInstructionsAtStart && this.instructionsContent\<close>:
  a string is truthy when it is not empty.\<close>

definition preserving :: "Middleware \<Rightarrow> bool" where
  "preserving st = (preserveInstructionsAtStart st \<and> instructionsContent st \<noteq> [])"

definition instructions :: "Middleware \<Rightarrow> ContextItem list" where
  "instructions st =
     (if preserving st then filter (\<lambda>item. priority item > 9 / 10) (sortedItems st) else [])"

definition regularItems :: "Middleware \<Rightarrow> ContextItem list" where
  "regularItems st =
     (if preserving st then filter (\<lambda>item. priority item \<le> 9 / 10) (sortedItems st)
      else sortedItems st)"

definition instructionsSize :: "Middleware \<Rightarrow> nat" where
  "instructionsSize st = foldl (\<lambda>total item. total + itemSize item) 0 (instructions st)"

definition availableSize :: "Middleware \<Rightarrow> int" where
  "availableSize st = maxSize st - int (instructionsSize st)"

text \<open>
  The selection loop over \<open>regularItems\<close>; its variables are \<open>keptItems\<close>,
  \<open>currentSize\<close> and the archive \<open>this.archivedItems\<close>. The loop has no \<open>break\<close>:
  an item that does not fit is archived and the loop goes on with the next one.
\<close>

fun selectItems ::
  "int \<Rightarrow> ContextItem list \<Rightarrow> ContextItem list \<Rightarrow> nat \<Rightarrow> ContextItem list
     \<Rightarrow> ContextItem list \<times> ContextItem list" where
  "selectItems avail [] keptItems currentSize arch = (keptItems, arch)"
| "selectItems avail (item # rest) keptItems currentSize arch =
     (if int currentSize + int (itemSize item) \<le> avail
      then selectItems avail rest (keptItems @ [item]) (currentSize + itemSize item) arch
      else selectItems avail rest keptItems currentSize (arch @ [item\<lparr>archived := True\<rparr>]))"

text \<open>The comparator of the final sort: instructions first, then the most recent first.\<close>

definition finalOrder :: "ContextItem \<Rightarrow> ContextItem \<Rightarrow> int" where
  "finalOrder a b =
     (if priority a > 9 / 10 \<and> priority b \<le> 9 / 10 then - 1
      else if priority b > 9 / 10 \<and> priority a \<le> 9 / 10 then 1
      else timestamp b - timestamp a)"

text \<open>
  \<open>compress\<close> as a state transformer. The report it returns (the two sizes, their ratio
  and copies of the two arrays) is read off the resulting state.
\<close>

definition compress :: "Middleware \<Rightarrow> Middleware" where
  "compress st =
     (if int (getCurrentSize st) \<le> maxSize st then st
      else (case selectItems (availableSize st) (regularItems st) [] 0 (archivedItems st) of
              (keptItems, arch) \<Rightarrow>
                st\<lparr>items := sortBy finalOrder (instructions st @ keptItems),
                   archivedItems := arch\<rparr>))"

subsection \<open>Item store\<close>

text \<open>
  \<open>addItem(content, priority = 0.5)\<close>; \<open>now\<close> is the clock reading of \<open>new Date()\<close>.
  The priority is stored as given; a caller that omits it passes \<open>defaultPriority\<close>.
  The method returns the new object; the model returns the state, where the object is
  found under its identifier.
\<close>

definition defaultPriority :: real where
  "defaultPriority = 1 / 2"

definition addItem :: "string \<Rightarrow> real \<Rightarrow> int \<Rightarrow> Middleware \<Rightarrow> Middleware" where
  "addItem text p now st =
     (let n = Suc (idCounter st);
          item = \<lparr> itemId = mkId n, content = text, priority = p, timestamp = now,
                   archived = False \<rparr>
      in compress (st\<lparr>idCounter := n, items := items st @ [item]\<rparr>))"

definition updatePriority :: "string \<Rightarrow> real \<Rightarrow> Middleware \<Rightarrow> bool \<times> Middleware" where
  "updatePriority ident p st =
     (case findIndex (\<lambda>i. itemId i = ident) (items st) of
        Some k \<Rightarrow>
          (True, st\<lparr>items := (items st)[k := (items st ! k)\<lparr>priority := max 0 (min 1 p)\<rparr>]\<rparr>)
      | None \<Rightarrow> (False, st))"

definition removeItem :: "string \<Rightarrow> Middleware \<Rightarrow> bool \<times> Middleware" where
  "removeItem ident st =
     (case findIndex (\<lambda>i. itemId i = ident) (items st) of
        Some k \<Rightarrow> (True, st\<lparr>items := splice1 k (items st)\<rparr>)
      | None \<Rightarrow> (False, st))"

definition restoreItem :: "string \<Rightarrow> Middleware \<Rightarrow> bool \<times> Middleware" where
  "restoreItem ident st =
     (case findIndex (\<lambda>i. itemId i = ident) (archivedItems st) of
        Some k \<Rightarrow>
          (let item = (archivedItems st ! k)\<lparr>archived := False\<rparr>
           in (True, compress (st\<lparr>archivedItems := splice1 k (archivedItems st),
                                  items := items st @ [item]\<rparr>)))
      | None \<Rightarrow> (False, st))"

text \<open>
  \<open>archiveLowPriority\<close>: the items below the threshold get their flag set and are
  pushed on the archive; \<open>this.items\<close> then keeps the items whose flag is not set. The
  flag is set on the object that \<open>this.items\<close> holds, hence the \<open>map\<close>.
\<close>

definition archiveLowPriority :: "Middleware \<Rightarrow> nat \<times> Middleware" where
  "archiveLowPriority st =
     (let toArchive = filter (\<lambda>item. priority item < archiveThreshold st) (items st);
          flagged = map (\<lambda>item. if priority item < archiveThreshold st
                                 then item\<lparr>archived := True\<rparr> else item) (items st)
      in (length toArchive,
          st\<lparr>archivedItems := archivedItems st @ map (\<lambda>item. item\<lparr>archived := True\<rparr>) toArchive,
             items := filter (\<lambda>item. \<not> archived item) flagged\<rparr>))"

definition clear :: "Middleware \<Rightarrow> Middleware" where
  "clear st = st\<lparr>items := [], archivedItems := []\<rparr>"

definition clearArchived :: "Middleware \<Rightarrow> Middleware" where
  "clearArchived st = st\<lparr>archivedItems := []\<rparr>"

definition setInstructions :: "string \<Rightarrow> Middleware \<Rightarrow> Middleware" where
  "setInstructions text st = st\<lparr>instructionsContent := text\<rparr>"

definition setMaxSize :: "int \<Rightarrow> Middleware \<Rightarrow> Middleware" where
  "setMaxSize n st = compress (st\<lparr>maxSize := n\<rparr>)"

subsection \<open>Summary of the archive\<close>

text \<open>
  \<open>summarizeArchived(maxItems = 5)\<close>. \<open>this.archivedItems.sort(...)\<close> sorts the array of
  the object itself, so the call returns a state next to the text. The text is kept
  structured: the fixed message, or one entry per line with its number, its timestamp
  (rendered by \<open>toISOString\<close> in the source) and its preview.
\<close>

datatype SummaryText = FixedText string | SummaryLines "(nat \<times> int \<times> string) list"

definition byTimestampDesc :: "ContextItem \<Rightarrow> ContextItem \<Rightarrow> int" where
  "byTimestampDesc a b = timestamp b - timestamp a"

definition preview :: "ContextItem \<Rightarrow> string" where
  "preview item = take 50 (content item) @ (if length (content item) > 50 then ''...'' else [])"

definition summarizeArchived :: "int \<Rightarrow> Middleware \<Rightarrow> SummaryText \<times> Middleware" where
  "summarizeArchived maxItems st =
     (let sorted = sortBy byTimestampDesc (archivedItems st);
          st' = st\<lparr>archivedItems := sorted\<rparr>;
          chosen = slice0 maxItems sorted
      in if length chosen = 0 then (FixedText ''No archived items to summarize.'', st')
         else (SummaryLines (map (\<lambda>(i, item). (i + 1, timestamp item, preview item))
                                 (enumerate 0 chosen)), st'))"

subsection \<open>Runs of the engine\<close>

datatype Operation =
    AddItem string real int
  | UpdatePriority string real
  | RemoveItem string
  | RestoreItem string
  | ArchiveLowPriority
  | Compress
  | Clear
  | ClearArchived
  | SetInstructions string
  | SetMaxSize int
  | SummarizeArchived int

fun perform :: "Operation \<Rightarrow> Middleware \<Rightarrow> Middleware" where
  "perform (AddItem text p now) st = addItem text p now st"
| "perform (UpdatePriority ident p) st = snd (updatePriority ident p st)"
| "perform (RemoveItem ident) st = snd (removeItem ident st)"
| "perform (RestoreItem ident) st = snd (restoreItem ident st)"
| "perform ArchiveLowPriority st = snd (archiveLowPriority st)"
| "perform Compress st = compress st"
| "perform Clear st = clear st"
| "perform ClearArchived st = clearArchived st"
| "perform (SetInstructions text) st = setInstructions text st"
| "perform (SetMaxSize n) st = setMaxSize n st"
| "perform (SummarizeArchived n) st = snd (summarizeArchived n st)"

text \<open>The state after a sequence of calls on a freshly constructed object; \<open>perform\<close>
  drops the value a call returns.\<close>

definition run :: "ContextCompressionOptions \<Rightarrow> Operation list \<Rightarrow> Middleware" where
  "run options ops = foldl (\<lambda>st op. perform op st) (constructor options) ops"

definition residentIds :: "Middleware \<Rightarrow> string set" where
  "residentIds st = itemId ` set (items st)"

definition archivedIds :: "Middleware \<Rightarrow> string set" where
  "archivedIds st = itemId ` set (archivedItems st)"

section \<open>Auxiliary notions for the proofs\<close>

text \<open>
  The two results of the selection loop as functions of the array it walks and of the
  size already taken: the items it keeps and the items it rejects, both in order.
\<close>

fun keptOf :: "int \<Rightarrow> nat \<Rightarrow> ContextItem list \<Rightarrow> ContextItem list" where
  "keptOf avail cur [] = []"
| "keptOf avail cur (item # rest) =
     (if int cur + int (itemSize item) \<le> avail
      then item # keptOf avail (cur + itemSize item) rest
      else keptOf avail cur rest)"

fun rejectedOf :: "int \<Rightarrow> nat \<Rightarrow> ContextItem list \<Rightarrow> ContextItem list" where
  "rejectedOf avail cur [] = []"
| "rejectedOf avail cur (item # rest) =
     (if int cur + int (itemSize item) \<le> avail
      then rejectedOf avail (cur + itemSize item) rest
      else item # rejectedOf avail cur rest)"

text \<open>\<open>guarded x y xs\<close>: walking \<open>xs\<close> from the front, \<open>x\<close> is met before any \<open>y\<close>,
  or no \<open>y\<close> is met at all.\<close>

fun guarded :: "'a \<Rightarrow> 'a \<Rightarrow> 'a list \<Rightarrow> bool" where
  "guarded x y [] = True"
| "guarded x y (h # t) = (h = x \<or> (h \<noteq> y \<and> guarded x y t))"

definition totalSize :: "ContextItem list \<Rightarrow> nat" where
  "totalSize xs = sum_list (map itemSize xs)"

text \<open>The identifiers of the object, resident ones first, and the invariant of the
  identifiers: pairwise different, and each made from a counter value already used.\<close>

definition allIds :: "Middleware \<Rightarrow> string list" where
  "allIds st = map itemId (items st) @ map itemId (archivedItems st)"

definition wellFormed :: "Middleware \<Rightarrow> bool" where
  "wellFormed st = (distinct (allIds st) \<and> set (allIds st) \<subseteq> mkId ` {1..idCounter st})"

text \<open>
  Priorities between 0 and 1: of one item, of all items of both arrays, and of the
  arguments of all \<open>addItem\<close> calls of a sequence.
\<close>

definition inRange :: "ContextItem \<Rightarrow> bool" where
  "inRange item = (0 \<le> priority item \<and> priority item \<le> 1)"

definition prioritiesInRange :: "Middleware \<Rightarrow> bool" where
  "prioritiesInRange st = (list_all inRange (items st) \<and> list_all inRange (archivedItems st))"

fun addsInRange :: "Operation list \<Rightarrow> bool" where
  "addsInRange [] = True"
| "addsInRange (AddItem text p now # ops) = (0 \<le> p \<and> p \<le> 1 \<and> addsInRange ops)"
| "addsInRange (op # ops) = addsInRange ops"

text \<open>
  The size estimate applied to the configured instructions text. The class never
  computes this number; it is defined here to compare it with \<open>availableSize\<close>.
\<close>

definition pinnedSize :: "Middleware \<Rightarrow> nat" where
  "pinnedSize st = (length (instructionsContent st) + 3) div 4"

section \<open>Concrete sessions\<close>

text \<open>
  Options, calls and states used to run the operations on concrete inputs. A state
  written as an update of a run is the state an operation hands to \<open>compress\<close>:
  \<open>addItem\<close> after the push, \<open>setMaxSize\<close> after the assignment.
\<close>

definition defaultOptions :: "int \<Rightarrow> ContextCompressionOptions" where
  "defaultOptions n =
     \<lparr> optMaxSize = n, optPreserveInstructionsAtStart = None,
       optInstructionsContent = None, optArchiveThreshold = None \<rparr>"

definition plainOptions :: "int \<Rightarrow> ContextCompressionOptions" where
  "plainOptions n =
     \<lparr> optMaxSize = n, optPreserveInstructionsAtStart = Some False,
       optInstructionsContent = None, optArchiveThreshold = None \<rparr>"

definition pinnedOptions :: "int \<Rightarrow> ContextCompressionOptions" where
  "pinnedOptions n =
     \<lparr> optMaxSize = n, optPreserveInstructionsAtStart = Some True,
       optInstructionsContent = Some ''Always answer briefly.'', optArchiveThreshold = None \<rparr>"

definition criticalItem :: ContextItem where
  "criticalItem =
     \<lparr> itemId = ''ctx_1'', content = ''Never reveal the key.'', priority = 95 / 100,
       timestamp = 1, archived = False \<rparr>"

definition criticalOnly :: Middleware where
  "criticalOnly = (constructor (defaultOptions 5))\<lparr>idCounter := 1, items := [criticalItem]\<rparr>"

definition pinnedCritical :: ContextItem where
  "pinnedCritical =
     \<lparr> itemId = ''ctx_1'', content = ''Be safe.'', priority = 95 / 100,
       timestamp = 1, archived = False \<rparr>"

definition pinnedOps :: "Operation list" where
  "pinnedOps =
     [AddItem ''Be safe.'' (95 / 100) 1,
      AddItem ''User prefers short replies.'' (1 / 2) 2,
      AddItem ''Likes Python'' (4 / 10) 3]"

definition pinnedFull :: Middleware where
  "pinnedFull = (run (pinnedOptions 100) pinnedOps)\<lparr>maxSize := 10\<rparr>"

definition backfillOps :: "Operation list" where
  "backfillOps =
     [AddItem ''aaaaaaaa'' (8 / 10) 1, AddItem ''bbbbbbbb'' (1 / 2) 2, AddItem ''cccc'' (2 / 10) 3]"

definition backfillFull :: Middleware where
  "backfillFull = (run (plainOptions 100) backfillOps)\<lparr>maxSize := 3\<rparr>"

definition tieX :: ContextItem where
  "tieX = \<lparr> itemId = ''ctx_1'', content = ''xxxxxxxxxxxxxxxx'', priority = 1 / 2,
            timestamp = 1, archived = False \<rparr>"

definition tieY :: ContextItem where
  "tieY = \<lparr> itemId = ''ctx_2'', content = ''yyyyyyyyyyyyyyyy'', priority = 1 / 2,
            timestamp = 2, archived = False \<rparr>"

definition tieZ :: ContextItem where
  "tieZ = \<lparr> itemId = ''ctx_3'', content = ''zzzzzzzzzzzzzzzz'', priority = 1 / 10,
            timestamp = 3, archived = False \<rparr>"

definition tieW :: ContextItem where
  "tieW = \<lparr> itemId = ''ctx_4'', content = ''wwwwwwwwwwwwwwww'', priority = 9 / 10,
            timestamp = 4, archived = False \<rparr>"

definition tieOps :: "Operation list" where
  "tieOps =
     [AddItem ''xxxxxxxxxxxxxxxx'' (1 / 2) 1, AddItem ''yyyyyyyyyyyyyyyy'' (1 / 2) 2,
      AddItem ''zzzzzzzzzzzzzzzz'' (1 / 10) 3]"

definition tieEarly :: Middleware where
  "tieEarly = (constructor (plainOptions 10))\<lparr>idCounter := 3, items := [tieX, tieY, tieZ]\<rparr>"

definition tieLate :: Middleware where
  "tieLate = (run (plainOptions 10) tieOps)\<lparr>idCounter := 4, items := [tieY, tieX, tieW]\<rparr>"

definition archiveOps :: "Operation list" where
  "archiveOps = [AddItem ''aaaaaaaa'' (1 / 2) 1, AddItem ''bbbbbbbb'' (1 / 2) 2]"

text \<open>
  The state \<open>restoreItem('ctx_1')\<close> hands to \<open>compress\<close> after the calls \<open>archiveOps\<close>
  under capacity 1: the first fragment spliced out of the archive, its flag cleared,
  and pushed on the resident array.
\<close>

definition restoreMoved :: Middleware where
  "restoreMoved =
     (constructor (plainOptions 1))
       \<lparr>idCounter := 2,
        items := [\<lparr> itemId = ''ctx_1'', content = ''aaaaaaaa'', priority = 1 / 2,
                    timestamp = 1, archived = False \<rparr>],
        archivedItems := [\<lparr> itemId = ''ctx_2'', content = ''bbbbbbbb'', priority = 1 / 2,
                            timestamp = 2, archived = True \<rparr>]\<rparr>"

section \<open>Basic facts\<close>

subsection \<open>Identifiers\<close>

lemma digitChar_inj: "d < 10 \<Longrightarrow> e < 10 \<Longrightarrow> digitChar d = digitChar e \<Longrightarrow> d = e"
proof -
  assume a: "d < 10" "e < 10" "digitChar d = digitChar e"
  have "distinct ''0123456789''" by simp
  moreover have "length ''0123456789'' = 10" by simp
  ultimately show ?thesis using a unfolding digitChar_def
    by (metis nth_eq_iff_index_eq)
qed

lemma decimal_nonempty: "decimal n \<noteq> []"
  by (subst decimal.simps) simp

lemma decimal_inj: "decimal n = decimal m \<Longrightarrow> n = m"
proof (induction n arbitrary: m rule: decimal.induct)
  case (1 n)
  show ?case
  proof (cases "n < 10")
    case True
    then have n: "decimal n = [digitChar n]" by (subst decimal.simps) simp
    show ?thesis
    proof (cases "m < 10")
      case mT: True
      then have "decimal m = [digitChar m]" by (subst decimal.simps) simp
      with n "1.prems" True mT show ?thesis by (simp add: digitChar_inj)
    next
      case mF: False
      then have "decimal m = decimal (m div 10) @ [digitChar (m mod 10)]"
        by (subst decimal.simps) simp
      with n "1.prems" decimal_nonempty [of "m div 10"] show ?thesis by simp
    qed
  next
    case False
    then have n: "decimal n = decimal (n div 10) @ [digitChar (n mod 10)]"
      by (subst decimal.simps) simp
    show ?thesis
    proof (cases "m < 10")
      case mT: True
      then have "decimal m = [digitChar m]" by (subst decimal.simps) simp
      with n "1.prems" decimal_nonempty [of "n div 10"] show ?thesis by simp
    next
      case mF: False
      then have "decimal m = decimal (m div 10) @ [digitChar (m mod 10)]"
        by (subst decimal.simps) simp
      with n "1.prems" have e: "decimal (n div 10) = decimal (m div 10)"
        and d: "digitChar (n mod 10) = digitChar (m mod 10)" by simp_all
      from "1.IH" [OF False e] have q: "n div 10 = m div 10" .
      from d have r: "n mod 10 = m mod 10" by (intro digitChar_inj) simp_all
      from q r show ?thesis by (metis div_mult_mod_eq)
    qed
  qed
qed

lemma mkId_inj: "mkId n = mkId m \<Longrightarrow> n = m"
  by (simp add: mkId_def decimal_inj)

subsection \<open>Sorting\<close>

lemma mset_insertBy: "mset (insertBy cmp x ys) = add_mset x (mset ys)"
  by (induction ys) simp_all

lemma mset_sortBy: "mset (sortBy cmp xs) = mset xs"
  by (induction xs) (simp_all add: mset_insertBy)

lemma set_sortBy: "set (sortBy cmp xs) = set xs"
  using mset_sortBy [of cmp xs] by (metis set_mset_mset)

lemma set_insertBy: "set (insertBy cmp x ys) = insert x (set ys)"
  using mset_insertBy [of cmp x ys] by (metis set_mset_mset set_mset_add_mset_insert)

lemma filter_insertBy_priority:
  "filter (\<lambda>i. priority i = k) (insertBy byPriorityDesc x ys) =
     (if priority x = k then x # filter (\<lambda>i. priority i = k) ys
      else filter (\<lambda>i. priority i = k) ys)"
  by (induction ys) (auto simp: byPriorityDesc_def)

lemma sortBy_priority_stable:
  "filter (\<lambda>i. priority i = k) (sortBy byPriorityDesc xs) = filter (\<lambda>i. priority i = k) xs"
  by (induction xs) (simp_all add: filter_insertBy_priority)

lemma sorted_insertBy_priority:
  "sorted_wrt (\<lambda>a b. priority b \<le> priority a) ys \<Longrightarrow>
   sorted_wrt (\<lambda>a b. priority b \<le> priority a) (insertBy byPriorityDesc x ys)"
  by (induction ys) (auto simp: byPriorityDesc_def set_insertBy)

lemma sorted_sortBy_priority:
  "sorted_wrt (\<lambda>a b. priority b \<le> priority a) (sortBy byPriorityDesc xs)"
  by (induction xs) (simp_all add: sorted_insertBy_priority)

subsection \<open>Order of consideration\<close>

lemma guarded_filter: "guarded x y xs \<Longrightarrow> P x \<Longrightarrow> guarded x y (filter P xs)"
  by (induction xs) auto

lemma guarded_unfilter: "guarded x y (filter P xs) \<Longrightarrow> P y \<Longrightarrow> guarded x y xs"
  by (induction xs) (auto split: if_splits)

lemma guarded_append: "y \<notin> set pre \<Longrightarrow> guarded x y (pre @ x # post)"
  by (induction pre) auto

lemma guarded_sorted:
  "sorted_wrt (\<lambda>a b. priority b \<le> priority a) xs \<Longrightarrow> a \<in> set xs \<Longrightarrow>
   priority b < priority a \<Longrightarrow> guarded a b xs"
  by (induction xs) fastforce+

subsection \<open>The selection loop\<close>

lemma selectItems_eq:
  "selectItems avail xs kept cur arch =
     (kept @ keptOf avail cur xs,
      arch @ map (\<lambda>item. item\<lparr>archived := True\<rparr>) (rejectedOf avail cur xs))"
  by (induction xs arbitrary: kept cur arch) simp_all

lemma keptOf_fits: "y \<in> set (keptOf avail cur xs) \<Longrightarrow> int cur + int (itemSize y) \<le> avail"
proof (induction xs arbitrary: cur)
  case Nil
  then show ?case by simp
next
  case (Cons h t)
  show ?case
  proof (cases "int cur + int (itemSize h) \<le> avail")
    case True
    with Cons.prems have "y = h \<or> y \<in> set (keptOf avail (cur + itemSize h) t)" by simp
    then show ?thesis
    proof
      assume "y = h" with True show ?thesis by simp
    next
      assume "y \<in> set (keptOf avail (cur + itemSize h) t)"
      from Cons.IH [OF this] show ?thesis by simp
    qed
  next
    case False
    with Cons.prems have "y \<in> set (keptOf avail cur t)" by simp
    from Cons.IH [OF this] show ?thesis .
  qed
qed

lemma keptOf_guarded:
  "guarded x y xs \<Longrightarrow> itemSize x = itemSize y \<Longrightarrow> y \<in> set (keptOf avail cur xs) \<Longrightarrow>
   x \<in> set (keptOf avail cur xs)"
proof (induction xs arbitrary: cur)
  case Nil
  then show ?case by simp
next
  case (Cons h t)
  show ?case
  proof (cases "h = x")
    case True
    from keptOf_fits [OF Cons.prems(3)] Cons.prems(2) True
    have "int cur + int (itemSize h) \<le> avail" by simp
    with True show ?thesis by simp
  next
    case False
    with Cons.prems(1) have hy: "h \<noteq> y" and g: "guarded x y t" by simp_all
    show ?thesis
    proof (cases "int cur + int (itemSize h) \<le> avail")
      case True
      with Cons.prems(3) hy have "y \<in> set (keptOf avail (cur + itemSize h) t)" by simp
      from Cons.IH [OF g Cons.prems(2) this] True show ?thesis by simp
    next
      case False
      with Cons.prems(3) have "y \<in> set (keptOf avail cur t)" by simp
      from Cons.IH [OF g Cons.prems(2) this] False show ?thesis by simp
    qed
  qed
qed

lemma mset_keptOf_rejectedOf:
  "mset (keptOf avail cur xs) + mset (rejectedOf avail cur xs) = mset xs"
  by (induction xs arbitrary: cur) simp_all

lemma set_keptOf: "set (keptOf avail cur xs) \<subseteq> set xs"
  by (induction xs arbitrary: cur) auto

lemma set_rejectedOf: "set (rejectedOf avail cur xs) \<subseteq> set xs"
  by (induction xs arbitrary: cur) auto

lemma keptOf_append:
  "keptOf avail cur (xs @ ys) =
     keptOf avail cur xs @ keptOf avail (cur + totalSize (keptOf avail cur xs)) ys"
  by (induction xs arbitrary: cur) (simp_all add: totalSize_def add.assoc)

lemma rejectedOf_append:
  "rejectedOf avail cur (xs @ ys) =
     rejectedOf avail cur xs @ rejectedOf avail (cur + totalSize (keptOf avail cur xs)) ys"
  by (induction xs arbitrary: cur) (simp_all add: totalSize_def add.assoc)

lemma foldl_size: "foldl (\<lambda>total item. total + itemSize item) n xs = n + totalSize xs"
  by (induction xs arbitrary: n) (simp_all add: totalSize_def)

subsection \<open>Compression\<close>

lemma compress_noop: "int (getCurrentSize st) \<le> maxSize st \<Longrightarrow> compress st = st"
  by (simp add: compress_def)

lemma compress_over:
  "\<not> int (getCurrentSize st) \<le> maxSize st \<Longrightarrow>
   compress st =
     st\<lparr>items := sortBy finalOrder
                    (instructions st @ keptOf (availableSize st) 0 (regularItems st)),
        archivedItems := archivedItems st @
          map (\<lambda>item. item\<lparr>archived := True\<rparr>) (rejectedOf (availableSize st) 0 (regularItems st))\<rparr>"
  by (simp add: compress_def selectItems_eq)

lemma mset_filter_priority:
  "mset (filter (\<lambda>item. priority item > c) xs) + mset (filter (\<lambda>item. priority item \<le> c) xs)
     = mset xs"
  by (induction xs) auto

lemma mset_instructions_regular:
  "mset (instructions st) + mset (regularItems st) = mset (items st)"
proof (cases "preserving st")
  case True
  then show ?thesis
    using mset_filter_priority [of "9 / 10" "sortBy byPriorityDesc (items st)"]
    by (simp only: instructions_def regularItems_def sortedItems_def mset_sortBy if_True)
next
  case False
  then show ?thesis
    by (simp add: instructions_def regularItems_def sortedItems_def mset_sortBy)
qed

lemma set_instructions:
  "set (instructions st) = (if preserving st then {i \<in> set (items st). priority i > 9 / 10} else {})"
  by (auto simp: instructions_def sortedItems_def set_sortBy)

lemma set_regularItems:
  "set (regularItems st) =
     (if preserving st then {i \<in> set (items st). priority i \<le> 9 / 10} else set (items st))"
  by (auto simp: regularItems_def sortedItems_def set_sortBy)

lemma items_compress_over:
  "\<not> int (getCurrentSize st) \<le> maxSize st \<Longrightarrow>
   set (items (compress st)) =
     set (instructions st) \<union> set (keptOf (availableSize st) 0 (regularItems st))"
  by (simp add: compress_over set_sortBy)

lemma idCounter_compress: "idCounter (compress st) = idCounter st"
  by (cases "int (getCurrentSize st) \<le> maxSize st") (simp_all add: compress_noop compress_over)

lemma allIds_compress: "mset (allIds (compress st)) = mset (allIds st)"
proof (cases "int (getCurrentSize st) \<le> maxSize st")
  case True
  then show ?thesis by (simp add: compress_noop)
next
  case False
  let ?k = "keptOf (availableSize st) 0 (regularItems st)"
  let ?r = "rejectedOf (availableSize st) 0 (regularItems st)"
  have flag: "map itemId (map (\<lambda>item. item\<lparr>archived := True\<rparr>) ?r) = map itemId ?r"
    by simp
  have "mset (instructions st) + (mset ?k + mset ?r) = mset (items st)"
    using mset_instructions_regular [of st]
    by (simp add: mset_keptOf_rejectedOf)
  then have "image_mset itemId (mset (instructions st)) + (image_mset itemId (mset ?k)
               + image_mset itemId (mset ?r)) = image_mset itemId (mset (items st))"
    by (metis image_mset_union)
  then show ?thesis
    using False by (simp add: compress_over allIds_def mset_sortBy o_def)
qed

lemma distinct_sub_mset: "mset ys \<subseteq># mset xs \<Longrightarrow> distinct xs \<Longrightarrow> distinct ys"
proof -
  assume s: "mset ys \<subseteq># mset xs" and d: "distinct xs"
  show "distinct ys"
    unfolding distinct_count_atmost_1
  proof
    fix a
    have le: "count (mset ys) a \<le> count (mset xs) a"
      using s by (rule mset_subset_eq_count)
    have one: "count (mset xs) a \<le> 1"
      using d by (simp add: distinct_count_atmost_1)
    show "count (mset ys) a = (if a \<in> set ys then 1 else 0)"
    proof (cases "a \<in> set ys")
      case True
      then have "0 < count (mset ys) a" by (rule count_mset_gt_0)
      with le one have "count (mset ys) a = 1" by linarith
      with True show ?thesis by simp
    next
      case False
      then show ?thesis by simp
    qed
  qed
qed

subsection \<open>The invariant of the identifiers\<close>

lemma wellFormed_mono:
  assumes "wellFormed st" "mset (allIds st') \<subseteq># mset (allIds st)" "idCounter st \<le> idCounter st'"
  shows "wellFormed st'"
proof -
  have d: "distinct (allIds st')"
    using assms(2) by (rule distinct_sub_mset) (use assms(1) in \<open>simp add: wellFormed_def\<close>)
  have "set (allIds st') \<subseteq> set (allIds st)"
    using assms(2) by (metis set_mset_mono set_mset_mset)
  also have "\<dots> \<subseteq> mkId ` {1..idCounter st}" using assms(1) by (simp add: wellFormed_def)
  also have "\<dots> \<subseteq> mkId ` {1..idCounter st'}" using assms(3) by auto
  finally show ?thesis using d by (simp add: wellFormed_def)
qed

lemma wellFormed_compress: "wellFormed st \<Longrightarrow> wellFormed (compress st)"
  by (rule wellFormed_mono [where st = st]) (simp_all add: allIds_compress idCounter_compress)

lemma wellFormed_constructor: "wellFormed (constructor options)"
  by (simp add: wellFormed_def allIds_def constructor_def)

lemma wellFormed_addItem: "wellFormed st \<Longrightarrow> wellFormed (addItem text p now st)"
proof -
  assume w: "wellFormed st"
  let ?n = "Suc (idCounter st)"
  let ?item = "\<lparr> itemId = mkId ?n, content = text, priority = p, timestamp = now,
                  archived = False \<rparr>"
  let ?st = "st\<lparr>idCounter := ?n, items := items st @ [?item]\<rparr>"
  have fresh: "mkId ?n \<notin> set (allIds st)"
  proof
    assume "mkId ?n \<in> set (allIds st)"
    with w obtain m where "m \<in> {1..idCounter st}" "mkId ?n = mkId m"
      by (auto simp: wellFormed_def)
    then show False using mkId_inj [of ?n m] by simp
  qed
  have "set (allIds ?st) = insert (mkId ?n) (set (allIds st))"
    by (auto simp: allIds_def)
  moreover have "distinct (allIds ?st)"
    using w fresh by (auto simp: allIds_def wellFormed_def)
  moreover have "set (allIds st) \<subseteq> mkId ` {1..?n}"
    using w by (auto simp: wellFormed_def)
  ultimately have "wellFormed ?st"
    by (auto simp: wellFormed_def)
  then show ?thesis
    by (simp add: addItem_def Let_def wellFormed_compress)
qed

lemma findIndex_None: "findIndex P xs = None \<longleftrightarrow> (\<forall>x \<in> set xs. \<not> P x)"
  by (induction xs) auto

lemma findIndex_Some: "findIndex P xs = Some k \<Longrightarrow> k < length xs \<and> P (xs ! k)"
  by (induction xs arbitrary: k) (auto split: if_splits)

lemma mset_splice1: "k < length xs \<Longrightarrow> add_mset (xs ! k) (mset (splice1 k xs)) = mset xs"
proof -
  assume k: "k < length xs"
  have "mset xs = mset (take k xs @ xs ! k # drop (Suc k) xs)"
    by (rule arg_cong [where f = mset, OF id_take_nth_drop [OF k]])
  then show ?thesis by (simp add: splice1_def)
qed

lemma wellFormed_updatePriority: "wellFormed st \<Longrightarrow> wellFormed (snd (updatePriority ident p st))"
proof (cases "findIndex (\<lambda>i. itemId i = ident) (items st)")
  case None
  then show "wellFormed st \<Longrightarrow> ?thesis" by (simp add: updatePriority_def)
next
  case (Some k)
  have "map itemId ((items st)[k := (items st ! k)\<lparr>priority := max 0 (min 1 p)\<rparr>]) = map itemId (items st)"
    using findIndex_Some [OF Some] by (simp add: map_update list_update_same_conv)
  then show "wellFormed st \<Longrightarrow> ?thesis" using Some
    by (simp add: updatePriority_def wellFormed_def allIds_def)
qed

lemma wellFormed_removeItem: "wellFormed st \<Longrightarrow> wellFormed (snd (removeItem ident st))"
proof (cases "findIndex (\<lambda>i. itemId i = ident) (items st)")
  case None
  then show "wellFormed st \<Longrightarrow> ?thesis" by (simp add: removeItem_def)
next
  case (Some k)
  assume w: "wellFormed st"
  from findIndex_Some [OF Some] have k: "k < length (items st)" by simp
  have "mset (splice1 k (items st)) \<subseteq># mset (items st)"
  proof -
    have "mset (splice1 k (items st)) \<subseteq># add_mset (items st ! k) (mset (splice1 k (items st)))"
      by simp
    then show ?thesis by (simp only: mset_splice1 [OF k])
  qed
  then have "mset (allIds (st\<lparr>items := splice1 k (items st)\<rparr>)) \<subseteq># mset (allIds st)"
    by (simp add: allIds_def image_mset_subseteq_mono)
  from wellFormed_mono [OF w this] show ?thesis using Some
    by (simp add: removeItem_def)
qed

lemma wellFormed_restoreItem: "wellFormed st \<Longrightarrow> wellFormed (snd (restoreItem ident st))"
proof (cases "findIndex (\<lambda>i. itemId i = ident) (archivedItems st)")
  case None
  then show "wellFormed st \<Longrightarrow> ?thesis" by (simp add: restoreItem_def)
next
  case (Some k)
  assume w: "wellFormed st"
  from findIndex_Some [OF Some] have k: "k < length (archivedItems st)" by simp
  let ?st = "st\<lparr>archivedItems := splice1 k (archivedItems st),
                 items := items st @ [(archivedItems st ! k)\<lparr>archived := False\<rparr>]\<rparr>"
  have "image_mset itemId (mset (archivedItems st)) =
          image_mset itemId (add_mset (archivedItems st ! k) (mset (splice1 k (archivedItems st))))"
    by (simp only: mset_splice1 [OF k])
  also have "\<dots> = add_mset (itemId (archivedItems st ! k))
                      (image_mset itemId (mset (splice1 k (archivedItems st))))"
    by simp
  finally have a: "image_mset itemId (mset (archivedItems st)) =
      add_mset (itemId (archivedItems st ! k))
        (image_mset itemId (mset (splice1 k (archivedItems st))))" .
  have "mset (allIds ?st) = mset (allIds st)"
    by (simp add: allIds_def a)
  then have sub: "mset (allIds ?st) \<subseteq># mset (allIds st)"
    by (simp only: subset_mset.order_refl)
  have "wellFormed ?st"
    by (rule wellFormed_mono [OF w sub]) simp
  then show ?thesis using Some
    by (simp add: restoreItem_def Let_def wellFormed_compress)
qed

lemma archiveLowPriority_items:
  "filter (\<lambda>item. \<not> archived item)
     (map (\<lambda>item. if priority item < t then item\<lparr>archived := True\<rparr> else item) xs) =
   filter (\<lambda>item. \<not> priority item < t \<and> \<not> archived item) xs"
  by (induction xs) simp_all

lemma mset_filter_disjoint:
  "mset (filter (\<lambda>x. \<not> P x \<and> Q x) xs) + mset (filter P xs) \<subseteq># mset xs"
proof (induction xs)
  case Nil
  show ?case by simp
next
  case (Cons h t)
  show ?case
  proof (cases "P h")
    case True
    with Cons show ?thesis by simp
  next
    case False
    show ?thesis
    proof (cases "Q h")
      case True
      with False Cons show ?thesis by simp
    next
      case q: False
      from Cons have "mset (filter (\<lambda>x. \<not> P x \<and> Q x) t) + mset (filter P t) \<subseteq># add_mset h (mset t)"
        by (rule subset_mset.order_trans) simp
      with False q show ?thesis by simp
    qed
  qed
qed

lemma wellFormed_archiveLowPriority: "wellFormed st \<Longrightarrow> wellFormed (snd (archiveLowPriority st))"
proof -
  assume w: "wellFormed st"
  let ?t = "archiveThreshold st"
  let ?low = "filter (\<lambda>item. priority item < ?t) (items st)"
  let ?rest = "filter (\<lambda>item. \<not> priority item < ?t \<and> \<not> archived item) (items st)"
  let ?st = "st\<lparr>archivedItems := archivedItems st @ map (\<lambda>item. item\<lparr>archived := True\<rparr>) ?low,
                 items := ?rest\<rparr>"
  have "mset ?rest + mset ?low \<subseteq># mset (items st)"
    by (rule mset_filter_disjoint)
  then have "image_mset itemId (mset ?rest + mset ?low) \<subseteq># image_mset itemId (mset (items st))"
    by (rule image_mset_subseteq_mono)
  then have "mset (allIds ?st) \<subseteq># mset (allIds st)"
    by (simp add: allIds_def o_def add.commute add.left_commute)
  from wellFormed_mono [OF w this] have "wellFormed ?st" by simp
  then show ?thesis
    by (simp add: archiveLowPriority_def Let_def archiveLowPriority_items)
qed

lemma wellFormed_summarizeArchived: "wellFormed st \<Longrightarrow> wellFormed (snd (summarizeArchived n st))"
proof -
  assume w: "wellFormed st"
  let ?st = "st\<lparr>archivedItems := sortBy byTimestampDesc (archivedItems st)\<rparr>"
  have "mset (allIds ?st) = mset (allIds st)"
    by (simp add: allIds_def mset_sortBy)
  then have sub: "mset (allIds ?st) \<subseteq># mset (allIds st)"
    by (simp only: subset_mset.order_refl)
  have "wellFormed ?st"
    by (rule wellFormed_mono [OF w sub]) simp
  then show ?thesis
    by (simp add: summarizeArchived_def Let_def)
qed

lemma wellFormed_perform: "wellFormed st \<Longrightarrow> wellFormed (perform op st)"
proof (cases op)
  case Clear
  then show "wellFormed st \<Longrightarrow> ?thesis" by (simp add: clear_def wellFormed_def allIds_def)
next
  case ClearArchived
  then show "wellFormed st \<Longrightarrow> ?thesis" by (auto simp: clearArchived_def wellFormed_def allIds_def)
next
  case (SetInstructions msg)
  then show "wellFormed st \<Longrightarrow> ?thesis" by (simp add: setInstructions_def wellFormed_def allIds_def)
next
  case (SetMaxSize n)
  assume "wellFormed st"
  then have "wellFormed (st\<lparr>maxSize := n\<rparr>)" by (simp add: wellFormed_def allIds_def)
  with SetMaxSize show ?thesis by (simp add: setMaxSize_def wellFormed_compress)
qed (simp_all add: wellFormed_addItem wellFormed_updatePriority wellFormed_removeItem
       wellFormed_restoreItem wellFormed_archiveLowPriority wellFormed_compress
       wellFormed_summarizeArchived)

lemma wellFormed_foldl:
  "wellFormed st \<Longrightarrow> wellFormed (foldl (\<lambda>st op. perform op st) st ops)"
  by (induction ops arbitrary: st) (simp_all add: wellFormed_perform)

lemma wellFormed_run: "wellFormed (run options ops)"
  by (simp add: run_def wellFormed_foldl wellFormed_constructor)

lemma wellFormed_disjoint: "wellFormed st \<Longrightarrow> residentIds st \<inter> archivedIds st = {}"
  by (auto simp: wellFormed_def allIds_def residentIds_def archivedIds_def)

lemma wellFormed_distinct_items: "wellFormed st \<Longrightarrow> distinct (items st)"
  by (simp add: wellFormed_def allIds_def distinct_map)

subsection \<open>Size estimate\<close>

text \<open>The integer formula of \<open>itemSize\<close> is the ceiling of a quarter of the length.\<close>

lemma itemSize_ceiling: "int (itemSize item) = \<lceil>real (length (content item)) / 4\<rceil>"
  unfolding itemSize_def by linarith

lemma totalSize_mset: "mset xs = mset ys \<Longrightarrow> totalSize xs = totalSize ys"
proof -
  assume e: "mset xs = mset ys"
  have a: "totalSize zs = sum_mset (image_mset itemSize (mset zs))" for zs
    by (simp add: totalSize_def sum_mset_sum_list [symmetric])
  show ?thesis by (simp only: a e)
qed

subsection \<open>Being considered first\<close>

text \<open>
  If \<open>x\<close> is considered before every \<open>y\<close> by the selection loop, has the size of
  \<open>y\<close> and at least its priority, then \<open>compress\<close> keeps \<open>x\<close> whenever it keeps \<open>y\<close>.
\<close>

lemma kept_if_guarded:
  assumes g: "guarded x y (sortedItems st)"
    and x: "x \<in> set (items st)"
    and p: "priority y \<le> priority x"
    and s: "itemSize x = itemSize y"
    and y: "y \<in> set (items (compress st))"
  shows "x \<in> set (items (compress st))"
proof (cases "int (getCurrentSize st) \<le> maxSize st")
  case True
  with x show ?thesis by (simp add: compress_noop)
next
  case False
  note over = items_compress_over [OF False]
  show ?thesis
  proof (cases "preserving st \<and> priority x > 9 / 10")
    case True
    with x have "x \<in> set (instructions st)" by (simp add: set_instructions)
    with over show ?thesis by simp
  next
    case reg: False
    have "y \<notin> set (instructions st)"
      using reg p by (auto simp: set_instructions)
    with y over have yk: "y \<in> set (keptOf (availableSize st) 0 (regularItems st))" by simp
    have "guarded x y (regularItems st)"
    proof (cases "preserving st")
      case True
      with reg have "priority x \<le> 9 / 10" by simp
      with g True show ?thesis by (simp add: regularItems_def guarded_filter)
    next
      case False
      with g show ?thesis by (simp add: regularItems_def)
    qed
    from keptOf_guarded [OF this s yk] over show ?thesis by simp
  qed
qed

subsection \<open>What the summary and the priorities preserve\<close>

text \<open>\<open>summarizeArchived\<close> keeps the resident array and the members of the archive.\<close>

lemma summarizeArchived_frame:
  "items (snd (summarizeArchived n st)) = items st \<and>
   mset (archivedItems (snd (summarizeArchived n st))) = mset (archivedItems st)"
  by (simp add: summarizeArchived_def Let_def mset_sortBy)

text \<open>
  With every \<open>addItem\<close> given a priority between 0 and 1, every stored priority is
  between 0 and 1: the other operations keep the range, \<open>updatePriority\<close> by clamping.
\<close>

lemma inRange_flag [simp]: "inRange (item\<lparr>archived := b\<rparr>) = inRange item"
  by (simp add: inRange_def)

lemma inRange_compress: "prioritiesInRange st \<Longrightarrow> prioritiesInRange (compress st)"
proof (cases "int (getCurrentSize st) \<le> maxSize st")
  case True
  then show "prioritiesInRange st \<Longrightarrow> ?thesis" by (simp add: compress_noop)
next
  case False
  assume a: "prioritiesInRange st"
  have k: "set (keptOf (availableSize st) 0 (regularItems st)) \<subseteq> set (items st)"
    using set_keptOf [of "availableSize st" 0 "regularItems st"]
    by (auto simp: set_regularItems split: if_splits)
  have r: "set (rejectedOf (availableSize st) 0 (regularItems st)) \<subseteq> set (items st)"
    using set_rejectedOf [of "availableSize st" 0 "regularItems st"]
    by (auto simp: set_regularItems split: if_splits)
  have i: "set (instructions st) \<subseteq> set (items st)"
    by (auto simp: set_instructions)
  from a k r i show ?thesis
    unfolding prioritiesInRange_def list_all_iff
    by (auto simp: compress_over [OF False] set_sortBy)
qed

lemma inRange_perform:
  "prioritiesInRange st \<Longrightarrow> addsInRange [op] \<Longrightarrow> prioritiesInRange (perform op st)"
proof (cases op)
  case (AddItem msg p now)
  assume a: "prioritiesInRange st" and b: "addsInRange [op]"
  with AddItem have "prioritiesInRange
     (st\<lparr>idCounter := Suc (idCounter st),
         items := items st @ [\<lparr> itemId = mkId (Suc (idCounter st)), content = msg, priority = p,
                                timestamp = now, archived = False \<rparr>]\<rparr>)"
    by (simp add: prioritiesInRange_def inRange_def)
  then show ?thesis using AddItem
    by (simp add: addItem_def Let_def inRange_compress)
next
  case (UpdatePriority ident p)
  assume a: "prioritiesInRange st"
  show ?thesis
  proof (cases "findIndex (\<lambda>i. itemId i = ident) (items st)")
    case None
    with a UpdatePriority show ?thesis by (simp add: updatePriority_def)
  next
    case (Some k)
    have "inRange ((items st ! k)\<lparr>priority := max 0 (min 1 p)\<rparr>)"
      by (simp add: inRange_def)
    moreover have "set ((items st)[k := (items st ! k)\<lparr>priority := max 0 (min 1 p)\<rparr>])
        \<subseteq> insert ((items st ! k)\<lparr>priority := max 0 (min 1 p)\<rparr>) (set (items st))"
      by (rule set_update_subset_insert)
    ultimately show ?thesis using a UpdatePriority Some
      unfolding prioritiesInRange_def list_all_iff
      by (auto simp: updatePriority_def)
  qed
next
  case (RemoveItem ident)
  assume a: "prioritiesInRange st"
  have "set (splice1 k (items st)) \<subseteq> set (items st)" for k
    unfolding splice1_def using set_take_subset [of k "items st"] set_drop_subset [of "Suc k" "items st"]
    by auto
  with a RemoveItem show ?thesis
    unfolding prioritiesInRange_def list_all_iff
    by (auto simp: removeItem_def split: option.splits)
next
  case (RestoreItem ident)
  assume a: "prioritiesInRange st"
  show ?thesis
  proof (cases "findIndex (\<lambda>i. itemId i = ident) (archivedItems st)")
    case None
    with a RestoreItem show ?thesis by (simp add: restoreItem_def)
  next
    case (Some k)
    from findIndex_Some [OF Some] have k: "archivedItems st ! k \<in> set (archivedItems st)" by simp
    have s: "set (splice1 k (archivedItems st)) \<subseteq> set (archivedItems st)"
      unfolding splice1_def
      using set_take_subset [of k "archivedItems st"] set_drop_subset [of "Suc k" "archivedItems st"]
      by auto
    from a k s have "prioritiesInRange
       (st\<lparr>archivedItems := splice1 k (archivedItems st),
           items := items st @ [(archivedItems st ! k)\<lparr>archived := False\<rparr>]\<rparr>)"
      unfolding prioritiesInRange_def list_all_iff by auto
    then show ?thesis using RestoreItem Some
      by (simp add: restoreItem_def Let_def inRange_compress)
  qed
next
  case ArchiveLowPriority
  assume a: "prioritiesInRange st"
  then show ?thesis using ArchiveLowPriority
    unfolding prioritiesInRange_def list_all_iff
    by (auto simp: archiveLowPriority_def Let_def archiveLowPriority_items)
next
  case Compress
  assume "prioritiesInRange st"
  with Compress show ?thesis by (simp add: inRange_compress)
next
  case Clear
  then show ?thesis by (simp add: clear_def prioritiesInRange_def)
next
  case ClearArchived
  assume "prioritiesInRange st"
  with ClearArchived show ?thesis by (simp add: clearArchived_def prioritiesInRange_def)
next
  case (SetInstructions msg)
  assume "prioritiesInRange st"
  with SetInstructions show ?thesis by (simp add: setInstructions_def prioritiesInRange_def)
next
  case (SetMaxSize n)
  assume "prioritiesInRange st"
  then have "prioritiesInRange (st\<lparr>maxSize := n\<rparr>)" by (simp add: prioritiesInRange_def)
  with SetMaxSize show ?thesis by (simp add: setMaxSize_def inRange_compress)
next
  case (SummarizeArchived n)
  assume "prioritiesInRange st"
  with SummarizeArchived show ?thesis
    unfolding prioritiesInRange_def list_all_iff
    by (simp add: summarizeArchived_def Let_def set_sortBy)
qed

lemma addsInRange_Cons: "addsInRange (op # ops) = (addsInRange [op] \<and> addsInRange ops)"
  by (cases op) simp_all

lemma inRange_foldl:
  "prioritiesInRange st \<Longrightarrow> addsInRange ops \<Longrightarrow>
   prioritiesInRange (foldl (\<lambda>st op. perform op st) st ops)"
proof (induction ops arbitrary: st)
  case Nil
  then show ?case by simp
next
  case (Cons op ops)
  from Cons.prems(2) have 1: "addsInRange [op]" and 2: "addsInRange ops"
    by (simp_all add: addsInRange_Cons [of op ops])
  from Cons.IH [OF inRange_perform [OF Cons.prems(1) 1] 2] show ?case by simp
qed

lemma priorities_in_range_if_adds_in_range:
  "addsInRange ops \<Longrightarrow> prioritiesInRange (run options ops)"
  unfolding run_def by (rule inRange_foldl) (simp add: prioritiesInRange_def constructor_def)

section \<open>The claims of the specification\<close>

subsection \<open>C1: fragments of priority above 0.9\<close>

text \<open>
  Claim C1 says that \<open>compress\<close> keeps every resident fragment with priority above
  0.9 whatever the instructions mode and text are. As stated it fails: with the default
  options (mode on, no instructions text) the guard of \<open>compress\<close> is false, the
  fragment is an ordinary one, and it is archived when it does not fit.
\<close>

theorem critical_archived_without_pinned_text:
  "addItem ''Never reveal the key.'' (95 / 100) 1 (constructor (defaultOptions 5))
     = compress criticalOnly \<and>
   maxSize criticalOnly < int (getCurrentSize criticalOnly) \<and>
   items criticalOnly = [criticalItem] \<and>
   9 / 10 < priority criticalItem \<and>
   items (compress criticalOnly) = [] \<and>
   archivedItems (compress criticalOnly) = [criticalItem\<lparr>archived := True\<rparr>]"
  by code_simp

text \<open>
  Claim C1, amended: when the instructions mode is on and the instructions text is not
  empty, every resident fragment with priority above 0.9 is resident after
  \<open>compress\<close>, and no fragment that \<open>compress\<close> appends to the archive has a priority
  above 0.9.
\<close>

theorem critical_kept_when_preserving:
  assumes "preserveInstructionsAtStart st" and "instructionsContent st \<noteq> []"
    and "item \<in> set (items st)" and "priority item > 9 / 10"
  shows "item \<in> set (items (compress st)) \<and>
         (\<forall>a \<in> set (drop (length (archivedItems st)) (archivedItems (compress st))).
            priority a \<le> 9 / 10)"
proof (cases "int (getCurrentSize st) \<le> maxSize st")
  case True
  with assms(3) show ?thesis by (simp add: compress_noop)
next
  case False
  from assms(1,2) have pr: "preserving st" by (simp add: preserving_def)
  with assms(3,4) have "item \<in> set (instructions st)" by (simp add: set_instructions)
  then have 1: "item \<in> set (items (compress st))"
    by (simp add: items_compress_over [OF False])
  have "set (rejectedOf (availableSize st) 0 (regularItems st)) \<subseteq> set (regularItems st)"
    by (rule set_rejectedOf)
  with pr have "\<forall>a \<in> set (rejectedOf (availableSize st) 0 (regularItems st)). priority a \<le> 9 / 10"
    by (auto simp: set_regularItems)
  then have 2: "\<forall>a \<in> set (drop (length (archivedItems st)) (archivedItems (compress st))).
            priority a \<le> 9 / 10"
    by (simp add: compress_over [OF False])
  from 1 2 show ?thesis by simp
qed

text \<open>
  The amended claim C1 on a state over capacity, with the mode on and a text: the
  fragment of priority 0.95 stays, the fragment \<open>ctx_3\<close> is archived.
\<close>

theorem critical_kept_when_preserving_witness:
  "preserveInstructionsAtStart pinnedFull \<and> instructionsContent pinnedFull \<noteq> [] \<and>
   pinnedCritical \<in> set (items pinnedFull) \<and> priority pinnedCritical > 9 / 10 \<and>
   maxSize pinnedFull < int (getCurrentSize pinnedFull) \<and>
   map itemId (drop (length (archivedItems pinnedFull)) (archivedItems (compress pinnedFull)))
     = [''ctx_3''] \<and>
   pinnedCritical \<in> set (items (compress pinnedFull)) \<and>
   list_all (\<lambda>a. priority a \<le> 9 / 10)
     (drop (length (archivedItems pinnedFull)) (archivedItems (compress pinnedFull)))"
proof -
  have h1: "preserveInstructionsAtStart pinnedFull" by code_simp
  have h2: "instructionsContent pinnedFull \<noteq> []" by code_simp
  have h3: "pinnedCritical \<in> set (items pinnedFull)" by code_simp
  have h4: "priority pinnedCritical > 9 / 10" by code_simp
  have h5: "maxSize pinnedFull < int (getCurrentSize pinnedFull)" by code_simp
  have h6: "map itemId (drop (length (archivedItems pinnedFull))
              (archivedItems (compress pinnedFull))) = [''ctx_3'']" by code_simp
  from critical_kept_when_preserving [OF h1 h2 h3 h4] h1 h2 h3 h4 h5 h6 show ?thesis
    unfolding list_all_iff by blast
qed

subsection \<open>C2: the space available for regular fragments\<close>

text \<open>
  Claim C2 says that, with the mode on and a text, the space available for regular
  fragments is the capacity minus the estimated size of the instructions text. As
  stated it fails: the text has size 6 and the capacity is 10, yet the available space
  is 8, and a regular fragment of size 7 is kept.
\<close>

theorem pinned_text_size_not_subtracted:
  "preserveInstructionsAtStart pinnedFull \<and> instructionsContent pinnedFull \<noteq> [] \<and>
   maxSize pinnedFull < int (getCurrentSize pinnedFull) \<and>
   setMaxSize 10 (run (pinnedOptions 100) pinnedOps) = compress pinnedFull \<and>
   availableSize pinnedFull = 8 \<and>
   maxSize pinnedFull - int (pinnedSize pinnedFull) = 4 \<and>
   map itemId (items (compress pinnedFull)) = [''ctx_1'', ''ctx_2''] \<and>
   map itemSize (items (compress pinnedFull)) = [2, 7]"
  by code_simp

text \<open>
  Claim C2, amended: with the mode on and a text, the space available for regular
  fragments is the capacity minus the total estimated size of the resident fragments
  with priority above 0.9; the size of the text itself is not subtracted.
\<close>

theorem available_space_counts_critical_items:
  assumes "preserveInstructionsAtStart st" and "instructionsContent st \<noteq> []"
  shows "availableSize st =
           maxSize st - int (sum_list (map itemSize (filter (\<lambda>item. priority item > 9 / 10) (items st))))"
proof -
  from assms have "preserving st" by (simp add: preserving_def)
  then have "mset (instructions st) = mset (filter (\<lambda>item. priority item > 9 / 10) (items st))"
    by (simp add: instructions_def sortedItems_def mset_sortBy)
  then have "totalSize (instructions st) =
             totalSize (filter (\<lambda>item. priority item > 9 / 10) (items st))"
    by (rule totalSize_mset)
  then show ?thesis
    by (simp add: availableSize_def instructionsSize_def foldl_size totalSize_def)
qed

text \<open>
  The amended claim C2 on the state of the counterexample.
\<close>

theorem available_space_counts_critical_items_witness:
  "preserveInstructionsAtStart pinnedFull \<and> instructionsContent pinnedFull \<noteq> [] \<and>
   availableSize pinnedFull =
     maxSize pinnedFull -
       int (sum_list (map itemSize (filter (\<lambda>item. priority item > 9 / 10) (items pinnedFull))))"
proof -
  have h1: "preserveInstructionsAtStart pinnedFull" by code_simp
  have h2: "instructionsContent pinnedFull \<noteq> []" by code_simp
  from available_space_counts_critical_items [OF h1 h2] h1 h2 show ?thesis
    by blast
qed

subsection \<open>C3: after a fragment that does not fit\<close>

text \<open>
  Claim C3 says that once a regular fragment overflows the available space, it and
  every fragment after it in sort order are rejected. As stated it fails: with 3 units
  available and sizes 2, 2, 1 in sort order, the second fragment is rejected and the
  third one is kept.
\<close>

theorem later_fragment_backfilled:
  "setMaxSize 3 (run (plainOptions 100) backfillOps) = compress backfillFull \<and>
   maxSize backfillFull < int (getCurrentSize backfillFull) \<and>
   map itemId (regularItems backfillFull) = [''ctx_1'', ''ctx_2'', ''ctx_3''] \<and>
   map itemSize (regularItems backfillFull) = [2, 2, 1] \<and>
   availableSize backfillFull = 3 \<and>
   map itemId (archivedItems (compress backfillFull)) = [''ctx_2''] \<and>
   map itemId (items (compress backfillFull)) = [''ctx_3'', ''ctx_1'']"
  by code_simp

text \<open>
  Claim C3, amended: the selection loop rejects a regular fragment exactly when the
  sizes of the fragments it kept before, plus the size of this fragment, exceed the
  available space; in both cases the loop goes on with the fragments after it, from the
  size kept so far, so a later fragment that fits in the space left is kept.
\<close>

theorem selection_goes_on_after_rejection:
  "selectItems avail (pre @ item # post) [] 0 arch =
     (case selectItems avail pre [] 0 arch of
        (keptPre, archPre) \<Rightarrow>
          if int (totalSize keptPre) + int (itemSize item) \<le> avail
          then selectItems avail post (keptPre @ [item]) (totalSize keptPre + itemSize item) archPre
          else selectItems avail post keptPre (totalSize keptPre)
                 (archPre @ [item\<lparr>archived := True\<rparr>]))"
  by (simp add: selectItems_eq keptOf_append rejectedOf_append)

subsection \<open>C4: resident and archived identifiers are disjoint\<close>

text \<open>
  Claim C4: in every state reached from a new object by any sequence of calls of
  \<open>addItem\<close>, \<open>updatePriority\<close>, \<open>removeItem\<close>, \<open>restoreItem\<close>,
  \<open>archiveLowPriority\<close>, \<open>compress\<close>, \<open>clear\<close>, \<open>clearArchived\<close> (and of
  \<open>setInstructions\<close>, \<open>setMaxSize\<close>, \<open>summarizeArchived\<close>), no identifier is both
  resident and archived.
\<close>

theorem resident_archive_disjoint:
  "residentIds (run options ops) \<inter> archivedIds (run options ops) = {}"
  by (rule wellFormed_disjoint [OF wellFormed_run])

subsection \<open>C5: priorities between 0 and 1\<close>

text \<open>
  Claim C5 says that every stored priority lies between 0 and 1. \<open>updatePriority\<close>
  clamps its argument, and the interface documents the field as \<open>0-1\<close>, but
  \<open>addItem\<close> stores its argument as it is: a fragment added with priority 1.5 is stored
  with priority 1.5, while the same value given to \<open>updatePriority\<close> becomes 1.
  (Lemma \<open>priorities_in_range_if_adds_in_range\<close>: the range holds in every reached
  state when every \<open>addItem\<close> is given a priority in it.)
\<close>

theorem addItem_stores_priority_unclamped:
  "map priority (items (run (defaultOptions 100) [AddItem ''urgent'' (3 / 2) 1])) = [3 / 2] \<and>
   map priority (items (run (defaultOptions 100)
      [AddItem ''urgent'' (1 / 2) 1, UpdatePriority ''ctx_1'' (3 / 2)])) = [1]"
  by code_simp

subsection \<open>C6: the summary of the archive\<close>

text \<open>
  Claim C6 says that \<open>summarizeArchived\<close> leaves the state as it is, the order of the
  archive included. The method sorts \<open>this.archivedItems\<close> itself, where
  \<open>compress\<close> and \<open>getFormattedContext\<close> sort a copy: an archive holding \<open>ctx_1\<close>
  before \<open>ctx_2\<close> holds \<open>ctx_2\<close> before \<open>ctx_1\<close> after the call.
  (Lemma \<open>summarizeArchived_frame\<close>: the resident array and the members of the archive
  are kept.)
\<close>

theorem summarizeArchived_reorders_archive:
  "map itemId (archivedItems (run (plainOptions 1) archiveOps)) = [''ctx_1'', ''ctx_2''] \<and>
   map itemId (archivedItems (snd (summarizeArchived 5 (run (plainOptions 1) archiveOps))))
     = [''ctx_2'', ''ctx_1''] \<and>
   fst (summarizeArchived 5 (run (plainOptions 1) archiveOps))
     = SummaryLines [(1, 2, ''bbbbbbbb''), (2, 1, ''aaaaaaaa'')]"
  by code_simp

subsection \<open>C7: identifiers that are not found\<close>

text \<open>
  Claim C7: \<open>updatePriority\<close> and \<open>removeItem\<close> on an identifier that is not
  resident, and \<open>restoreItem\<close> on an identifier that is not archived, return
  \<open>false\<close> and leave the state as it is; in a state reached by calls this covers an
  archived identifier given to \<open>updatePriority\<close> or \<open>removeItem\<close> and a resident
  identifier given to \<open>restoreItem\<close>. The three functions are total: there is no
  exception to model.
\<close>

theorem not_found_returns_false:
  "(u \<notin> residentIds st \<longrightarrow>
      updatePriority u p st = (False, st) \<and> removeItem u st = (False, st)) \<and>
   (u \<notin> archivedIds st \<longrightarrow> restoreItem u st = (False, st)) \<and>
   (a \<in> archivedIds (run options ops) \<longrightarrow>
      updatePriority a p (run options ops) = (False, run options ops) \<and>
      removeItem a (run options ops) = (False, run options ops)) \<and>
   (r \<in> residentIds (run options ops) \<longrightarrow>
      restoreItem r (run options ops) = (False, run options ops))"
proof -
  have res: "i \<notin> residentIds s \<Longrightarrow>
      updatePriority i p s = (False, s) \<and> removeItem i s = (False, s)" for i s
  proof -
    assume "i \<notin> residentIds s"
    then have "findIndex (\<lambda>x. itemId x = i) (items s) = None"
      by (auto simp: findIndex_None residentIds_def)
    then show ?thesis by (simp add: updatePriority_def removeItem_def)
  qed
  have arc: "i \<notin> archivedIds s \<Longrightarrow> restoreItem i s = (False, s)" for i s
  proof -
    assume "i \<notin> archivedIds s"
    then have "findIndex (\<lambda>x. itemId x = i) (archivedItems s) = None"
      by (auto simp: findIndex_None archivedIds_def)
    then show ?thesis by (simp add: restoreItem_def)
  qed
  have dis: "residentIds (run options ops) \<inter> archivedIds (run options ops) = {}"
    by (rule wellFormed_disjoint [OF wellFormed_run])
  from dis have "a \<in> archivedIds (run options ops) \<Longrightarrow> a \<notin> residentIds (run options ops)"
    and "r \<in> residentIds (run options ops) \<Longrightarrow> r \<notin> archivedIds (run options ops)"
    by auto
  with res arc show ?thesis by blast
qed

text \<open>
  Claim C7 on a state with \<open>ctx_1\<close> resident, \<open>ctx_3\<close> archived and \<open>ctx_9\<close>
  unknown.
\<close>

theorem not_found_returns_false_witness:
  "''ctx_9'' \<notin> residentIds (run (pinnedOptions 100) (pinnedOps @ [SetMaxSize 10])) \<and>
   ''ctx_9'' \<notin> archivedIds (run (pinnedOptions 100) (pinnedOps @ [SetMaxSize 10])) \<and>
   ''ctx_3'' \<in> archivedIds (run (pinnedOptions 100) (pinnedOps @ [SetMaxSize 10])) \<and>
   ''ctx_1'' \<in> residentIds (run (pinnedOptions 100) (pinnedOps @ [SetMaxSize 10])) \<and>
   updatePriority ''ctx_9'' 1 (run (pinnedOptions 100) (pinnedOps @ [SetMaxSize 10]))
     = (False, run (pinnedOptions 100) (pinnedOps @ [SetMaxSize 10])) \<and>
   removeItem ''ctx_9'' (run (pinnedOptions 100) (pinnedOps @ [SetMaxSize 10]))
     = (False, run (pinnedOptions 100) (pinnedOps @ [SetMaxSize 10])) \<and>
   restoreItem ''ctx_9'' (run (pinnedOptions 100) (pinnedOps @ [SetMaxSize 10]))
     = (False, run (pinnedOptions 100) (pinnedOps @ [SetMaxSize 10])) \<and>
   updatePriority ''ctx_3'' 1 (run (pinnedOptions 100) (pinnedOps @ [SetMaxSize 10]))
     = (False, run (pinnedOptions 100) (pinnedOps @ [SetMaxSize 10])) \<and>
   removeItem ''ctx_3'' (run (pinnedOptions 100) (pinnedOps @ [SetMaxSize 10]))
     = (False, run (pinnedOptions 100) (pinnedOps @ [SetMaxSize 10])) \<and>
   restoreItem ''ctx_1'' (run (pinnedOptions 100) (pinnedOps @ [SetMaxSize 10]))
     = (False, run (pinnedOptions 100) (pinnedOps @ [SetMaxSize 10]))"
proof -
  let ?st = "run (pinnedOptions 100) (pinnedOps @ [SetMaxSize 10])"
  have h1: "''ctx_9'' \<notin> residentIds ?st" by code_simp
  have h2: "''ctx_9'' \<notin> archivedIds ?st" by code_simp
  have h3: "''ctx_3'' \<in> archivedIds ?st" by code_simp
  have h4: "''ctx_1'' \<in> residentIds ?st" by code_simp
  from not_found_returns_false [of "''ctx_9''" ?st 1 "''ctx_3''" "pinnedOptions 100"
      "pinnedOps @ [SetMaxSize 10]" "''ctx_1''"] h1 h2 h3 h4
  show ?thesis by blast
qed

subsection \<open>C8: a higher priority is kept first\<close>

text \<open>
  Claim C8: for two resident fragments of equal estimated size, if the one of strictly
  lower priority is resident after \<open>compress\<close>, so is the one of higher priority.
  The statement holds for all resident fragments, regular or not.
\<close>

theorem priority_monotone:
  assumes "a \<in> set (items st)" and "b \<in> set (items st)"
    and "priority b < priority a" and "itemSize a = itemSize b"
    and "b \<in> set (items (compress st))"
  shows "a \<in> set (items (compress st))"
proof -
  have "a \<in> set (sortedItems st)"
    using assms(1) by (simp add: sortedItems_def set_sortBy)
  then have "guarded a b (sortedItems st)"
    unfolding sortedItems_def
    by (intro guarded_sorted sorted_sortBy_priority assms(3)) (simp add: sortedItems_def)
  from kept_if_guarded [OF this assms(1) _ assms(4) assms(5)] assms(3) show ?thesis by simp
qed

text \<open>
  Claim C8 on a state over capacity: priorities 0.9 and 0.5, both of size 4, both
  kept, a third fragment of size 4 being archived.
\<close>

theorem priority_monotone_witness:
  "tieW \<in> set (items tieLate) \<and> tieY \<in> set (items tieLate) \<and>
   priority tieY < priority tieW \<and> itemSize tieW = itemSize tieY \<and>
   maxSize tieLate < int (getCurrentSize tieLate) \<and>
   tieY \<in> set (items (compress tieLate)) \<and> tieW \<in> set (items (compress tieLate))"
proof -
  have h1: "tieW \<in> set (items tieLate)" by code_simp
  have h2: "tieY \<in> set (items tieLate)" by code_simp
  have h3: "priority tieY < priority tieW" by code_simp
  have h4: "itemSize tieW = itemSize tieY" by code_simp
  have h5: "tieY \<in> set (items (compress tieLate))" by code_simp
  have h6: "maxSize tieLate < int (getCurrentSize tieLate)" by code_simp
  from priority_monotone [OF h1 h2 h3 h4 h5] h1 h2 h3 h4 h5 h6 show ?thesis
    by blast
qed

subsection \<open>C9: fragments of equal priority\<close>

text \<open>
  Claim C9 says that of two fragments of equal priority and size the one inserted first
  is kept when only one can be, equal priorities being considered in insertion order.
  As stated it fails. In the run below \<open>X\<close> is added before \<open>Y\<close>; the third call
  compresses over capacity and leaves the resident array as \<open>Y\<close>, \<open>X\<close>; the fourth
  call compresses with room for one of the two, keeps \<open>Y\<close> and archives \<open>X\<close>.
\<close>

theorem later_inserted_fragment_wins_tie:
  "run (plainOptions 10) (tieOps @ [AddItem ''wwwwwwwwwwwwwwww'' (9 / 10) 4]) = compress tieLate \<and>
   items (run (plainOptions 10)
            [AddItem ''xxxxxxxxxxxxxxxx'' (1 / 2) 1, AddItem ''yyyyyyyyyyyyyyyy'' (1 / 2) 2])
     = [tieX, tieY] \<and>
   priority tieX = priority tieY \<and> itemSize tieX = itemSize tieY \<and>
   items tieLate = [tieY, tieX, tieW] \<and>
   items (compress tieLate) = [tieW, tieY] \<and>
   map itemId (archivedItems (compress tieLate)) = [''ctx_3'', ''ctx_1'']"
  by code_simp

text \<open>
  Claim C9, amended: the tie is broken by the position in the resident array at the
  time of the compression, not by the order of insertion. In a state whose resident
  identifiers are pairwise different, if \<open>x\<close> stands before \<open>y\<close> in the resident
  array, with the same priority and the same estimated size, and \<open>y\<close> is resident
  after \<open>compress\<close>, then so is \<open>x\<close>: when one of the two is kept, it is \<open>x\<close>. And
  the array sorted by priority lists the fragments of that priority in the order in
  which they stand in the resident array.
\<close>

theorem earlier_in_array_wins:
  assumes d: "distinct (map itemId (items st))"
    and i: "items st = pre @ x # post" and y: "y \<in> set post"
    and p: "priority x = priority y" and s: "itemSize x = itemSize y"
    and k: "y \<in> set (items (compress st))"
  shows "x \<in> set (items (compress st)) \<and>
         filter (\<lambda>i. priority i = priority x) (sortedItems st) =
           filter (\<lambda>i. priority i = priority x) (items st)"
proof -
  have stable: "filter (\<lambda>i. priority i = priority x) (sortedItems st) =
      filter (\<lambda>i. priority i = priority x) (items st)"
    by (simp add: sortedItems_def sortBy_priority_stable)
  from d have "distinct (items st)" by (simp add: distinct_map)
  with i y have "y \<notin> set pre" by auto
  then have "guarded x y (items st)" unfolding i by (rule guarded_append)
  then have "guarded x y (filter (\<lambda>i. priority i = priority x) (items st))"
    by (rule guarded_filter) simp
  then have "guarded x y (filter (\<lambda>i. priority i = priority x) (sortedItems st))"
    by (simp only: stable)
  then have g: "guarded x y (sortedItems st)"
    by (rule guarded_unfilter) (simp add: p)
  have "x \<in> set (items st)" by (simp add: i)
  from kept_if_guarded [OF g this _ s k] p have "x \<in> set (items (compress st))" by simp
  with stable show ?thesis by simp
qed

text \<open>
  The amended claim C9 on a state over capacity with \<open>X\<close> standing before \<open>Y\<close>: both are
  kept, and the array sorted by priority lists them as the resident array does.
\<close>

theorem earlier_in_array_wins_witness:
  "distinct (map itemId (items tieEarly)) \<and> items tieEarly = [] @ tieX # [tieY, tieZ] \<and>
   tieY \<in> set [tieY, tieZ] \<and> priority tieX = priority tieY \<and>
   itemSize tieX = itemSize tieY \<and> maxSize tieEarly < int (getCurrentSize tieEarly) \<and>
   tieY \<in> set (items (compress tieEarly)) \<and> tieX \<in> set (items (compress tieEarly)) \<and>
   filter (\<lambda>i. priority i = priority tieX) (sortedItems tieEarly) = [tieX, tieY] \<and>
   filter (\<lambda>i. priority i = priority tieX) (items tieEarly) = [tieX, tieY]"
proof -
  have h1: "distinct (map itemId (items tieEarly))" by code_simp
  have h2: "items tieEarly = [] @ tieX # [tieY, tieZ]" by code_simp
  have h3: "tieY \<in> set [tieY, tieZ]" by simp
  have h4: "priority tieX = priority tieY" by code_simp
  have h5: "itemSize tieX = itemSize tieY" by code_simp
  have h6: "tieY \<in> set (items (compress tieEarly))" by code_simp
  have h7: "maxSize tieEarly < int (getCurrentSize tieEarly)" by code_simp
  have h8: "filter (\<lambda>i. priority i = priority tieX) (items tieEarly) = [tieX, tieY]"
    by code_simp
  from earlier_in_array_wins [OF h1 h2 h3 h4 h5 h6] have
    c1: "tieX \<in> set (items (compress tieEarly))" and
    c2: "filter (\<lambda>i. priority i = priority tieX) (sortedItems tieEarly) =
           filter (\<lambda>i. priority i = priority tieX) (items tieEarly)"
    by simp_all
  from c2 h8 have c3: "filter (\<lambda>i. priority i = priority tieX) (sortedItems tieEarly)
      = [tieX, tieY]" by simp
  from c1 c3 h1 h2 h3 h4 h5 h6 h7 h8 show ?thesis
    by blast
qed

subsection \<open>C10: a restored fragment may be archived again\<close>

text \<open>
  Claim C10: \<open>restoreItem\<close> can return \<open>true\<close> and leave the fragment in the
  archive, since it moves the fragment to the resident array and then runs
  \<open>compress\<close>. With capacity 1 two fragments of size 2 are archived when added, \<open>ctx_1\<close>
  before \<open>ctx_2\<close>. \<open>restoreItem('ctx_1')\<close> returns \<open>true\<close> and the state \<open>compress\<close>
  makes of \<open>restoreMoved\<close>, in which \<open>ctx_1\<close> is resident with its flag cleared and the
  archive holds \<open>ctx_2\<close> alone; that state is over capacity, and \<open>compress\<close> archives
  \<open>ctx_1\<close> again, now behind \<open>ctx_2\<close>. After the call \<open>ctx_1\<close> is archived and not
  resident.
\<close>

theorem restored_item_archived_again:
  "map itemId (items (run (plainOptions 1) archiveOps)) = [] \<and>
   map itemId (archivedItems (run (plainOptions 1) archiveOps)) = [''ctx_1'', ''ctx_2''] \<and>
   restoreItem ''ctx_1'' (run (plainOptions 1) archiveOps) = (True, compress restoreMoved) \<and>
   restoreMoved =
     (run (plainOptions 1) archiveOps)
       \<lparr>archivedItems := splice1 0 (archivedItems (run (plainOptions 1) archiveOps)),
        items := items (run (plainOptions 1) archiveOps) @
                   [(archivedItems (run (plainOptions 1) archiveOps) ! 0)\<lparr>archived := False\<rparr>]\<rparr> \<and>
   map itemId (items restoreMoved) = [''ctx_1''] \<and>
   map archived (items restoreMoved) = [False] \<and>
   map itemId (archivedItems restoreMoved) = [''ctx_2''] \<and>
   maxSize restoreMoved < int (getCurrentSize restoreMoved) \<and>
   map itemId (items (compress restoreMoved)) = [] \<and>
   map itemId (archivedItems (compress restoreMoved)) = [''ctx_2'', ''ctx_1''] \<and>
   map archived (archivedItems (compress restoreMoved)) = [True, True] \<and>
   ''ctx_1'' \<in> archivedIds (snd (restoreItem ''ctx_1'' (run (plainOptions 1) archiveOps))) \<and>
   ''ctx_1'' \<notin> residentIds (snd (restoreItem ''ctx_1'' (run (plainOptions 1) archiveOps)))"
  by code_simp

end
